theory Spec2Isabelle
  imports Complex_Main
begin

section \<open>The ticket WebSocket hook, \<^verbatim>\<open>useTicketWebSocket.js\<close>\<close>

text \<open>
  The hook keeps four pieces of React state (timeline, pending tickets, a connection
  status string, the last message), reads \<^verbatim>\<open>readyState\<close> and
  \<^verbatim>\<open>lastJsonMessage\<close> from the \<^verbatim>\<open>react-use-websocket\<close> package, and
  registers three callbacks and four effects. The package is not part of the repository.
  It appears here with its documented behaviour, as far as the hook depends on it: the
  browser socket it owns, the order in which it reports the socket's events to the hook,
  and what its \<^verbatim>\<open>sendMessage\<close> does with a message.
\<close>

subsection \<open>JavaScript values\<close>

text \<open>
  Decoded frames and state values. Numbers are idealised as rationals: the hook applies
  nothing but the truthiness test to one. An object is the list of its own properties.
\<close>

datatype jsval =
    JUndefined
  | JNull
  | JBool bool
  | JNum rat
  | JStr string
  | JArr "jsval list"
  | JObj "(string \<times> jsval) list"

datatype js_error = TypeError

text \<open>The test of \<^verbatim>\<open>if (v)\<close>.\<close>

fun truthy :: "jsval \<Rightarrow> bool" where
  "truthy JUndefined = False"
| "truthy JNull = False"
| "truthy (JBool b) = b"
| "truthy (JNum n) = (n \<noteq> 0)"
| "truthy (JStr s) = (s \<noteq> [])"
| "truthy (JArr xs) = True"
| "truthy (JObj kvs) = True"

text \<open>
  Reading a property, as \<^verbatim>\<open>v.k\<close> and as one name of a destructuring pattern:
  a TypeError on \<^verbatim>\<open>undefined\<close> and \<^verbatim>\<open>null\<close>, the own property of an object,
  and \<^verbatim>\<open>undefined\<close> otherwise (the names the hook reads, \<^verbatim>\<open>type\<close>,
  \<^verbatim>\<open>timeline\<close>, \<^verbatim>\<open>pending_tickets\<close>, \<^verbatim>\<open>data\<close>, \<^verbatim>\<open>client_id\<close> and
  \<^verbatim>\<open>message\<close>, are defined on no prototype).
\<close>

fun get_prop :: "jsval \<Rightarrow> string \<Rightarrow> js_error + jsval" where
  "get_prop JUndefined k = Inl TypeError"
| "get_prop JNull k = Inl TypeError"
| "get_prop (JObj kvs) k = Inr (case map_of kvs k of None \<Rightarrow> JUndefined | Some v \<Rightarrow> v)"
| "get_prop (JBool b) k = Inr JUndefined"
| "get_prop (JNum n) k = Inr JUndefined"
| "get_prop (JStr s) k = Inr JUndefined"
| "get_prop (JArr xs) k = Inr JUndefined"

text \<open>The field of a frame as a plain value, for stating properties of frames.\<close>

definition field :: "jsval \<Rightarrow> string \<Rightarrow> jsval" where
  "field v k = (case get_prop v k of Inl e \<Rightarrow> JUndefined | Inr x \<Rightarrow> x)"

fun is_array :: "jsval \<Rightarrow> bool" where
  "is_array (JArr xs) = True"
| "is_array v = False"

subsection \<open>The hook's state\<close>

text \<open>The \<^verbatim>\<open>ReadyState\<close> enumeration of the WebSocket package.\<close>

datatype ReadyState = UNINSTANTIATED | CONNECTING | OPEN | CLOSING | CLOSED

text \<open>
  A message on its way out, as the \<open>v\<close> of \<^verbatim>\<open>JSON.stringify(v)\<close>, marked with the
  place in the hook that produced it: the subscribe effect, the heartbeat timer or the
  consumer's send. The mark is not part of the message; it lets a property tell a
  heartbeat from a consumer's message that looks like one.
\<close>

datatype origin = Subscription | Heartbeat | Consumer

type_synonym frame = "origin \<times> jsval"

text \<open>
  The hook:
  \<^item> \<open>timeline\<close>, \<open>pendingTickets\<close>, \<open>connectionStatus\<close>, \<open>lastMessage\<close>: the four
    \<^verbatim>\<open>useState\<close> cells (lines 6 to 9);
  \<^item> \<open>readyState\<close>: the value \<^verbatim>\<open>useWebSocket\<close> returned to the latest render;
  \<^item> \<open>pingInterval\<close>: the interval timer of the heartbeat effect (lines 106 to 114)
    while it is live, as the milliseconds left until its callback runs next;
  \<^item> \<open>rendered\<close>: the ready states the renders so far have seen. The object a render
    returns (lines 116 to 127) holds a \<^verbatim>\<open>sendMessage\<close> that tests the ready state of
    that render, and a consumer may keep it;
  \<^item> \<open>outbox\<close>: the calls the hook has made on the package's \<^verbatim>\<open>sendMessage\<close>, oldest
    first.

  The package and the browser:
  \<^item> \<open>socket\<close>: the \<^verbatim>\<open>readyState\<close> of the browser socket itself. The package copies
    it into its own state, which the hook reads, only in its handlers of the socket's
    open and close events, so the hook still sees OPEN while the socket is CLOSING;
  \<^item> \<open>messageQueue\<close>: the messages the package keeps for the next open socket;
  \<^item> \<open>wire\<close>: the frames given to \<^verbatim>\<open>send\<close> of each socket, the current socket's
    first, each list oldest first.
\<close>

record hook_state =
  timeline :: jsval
  pendingTickets :: jsval
  connectionStatus :: string
  lastMessage :: jsval
  readyState :: ReadyState
  pingInterval :: "nat option"
  rendered :: "ReadyState set"
  outbox :: "frame list"
  socket :: ReadyState
  messageQueue :: "frame list"
  wire :: "frame list list"

text \<open>The options of lines 27 to 33, handed to the package.\<close>

definition shouldReconnect :: "jsval \<Rightarrow> bool" where
  "shouldReconnect closeEvent = True"

definition reconnectAttempts :: nat where
  "reconnectAttempts = 10"

definition reconnectInterval :: nat where
  "reconnectInterval = 3000"

text \<open>
  The package's \<^verbatim>\<open>sendMessage(message, keep = true)\<close>. The hook always calls it with
  one argument, so messages are kept: on an open socket the message goes out, otherwise
  it joins the queue.
\<close>

definition transmit :: "frame \<Rightarrow> hook_state \<Rightarrow> hook_state" where
  "transmit f s =
     (if socket s = OPEN
      then s\<lparr>wire := (case wire s of [] \<Rightarrow> [[f]] | c # cs \<Rightarrow> (c @ [f]) # cs)\<rparr>
      else s\<lparr>messageQueue := messageQueue s @ [f]\<rparr>)"

text \<open>A call of the hook on \<^verbatim>\<open>sendMessage\<close>: noted in the outbox, then the above.\<close>

definition sendMessage :: "origin \<Rightarrow> jsval \<Rightarrow> hook_state \<Rightarrow> hook_state" where
  "sendMessage tag v s = transmit (tag, v) (s\<lparr>outbox := outbox s @ [(tag, v)]\<rparr>)"

text \<open>
  The package's own effect on its ready state: when that has become OPEN, the queue is
  emptied and every message in it sent again, in order.
\<close>

definition package_flush :: "hook_state \<Rightarrow> hook_state" where
  "package_flush s =
     (if readyState s = OPEN
      then fold transmit (messageQueue s) (s\<lparr>messageQueue := []\<rparr>)
      else s)"

definition subscribe_frame :: jsval where
  "subscribe_frame =
     JObj [(''type'', JStr ''subscribe''),
           (''subscriptions'',
            JArr [JStr ''timeline_updates'', JStr ''pending_tickets_updates'',
                  JStr ''ticket_updates''])]"

definition ping_frame :: jsval where
  "ping_frame = JObj [(''type'', JStr ''ping'')]"

subsection \<open>Callbacks (lines 15 to 26)\<close>

definition onOpen :: "hook_state \<Rightarrow> hook_state" where
  "onOpen s = s\<lparr>connectionStatus := ''Connected''\<rparr>"

definition onClose :: "hook_state \<Rightarrow> hook_state" where
  "onClose s = s\<lparr>connectionStatus := ''Disconnected''\<rparr>"

definition onError :: "hook_state \<Rightarrow> hook_state" where
  "onError s = s\<lparr>connectionStatus := ''Error''\<rparr>"

subsection \<open>The message effect (lines 37 to 81)\<close>

text \<open>The \<^verbatim>\<open>switch (type)\<close>: strict equality with each case label, in order.\<close>

definition dispatch ::
  "jsval \<Rightarrow> jsval \<Rightarrow> jsval \<Rightarrow> jsval \<Rightarrow> hook_state \<Rightarrow> js_error + hook_state" where
  "dispatch type newTimeline newPendingTickets lastJsonMessage s =
     (if type = JStr ''initial_data'' then
        Inr (let s1 = (if truthy newTimeline then s\<lparr>timeline := newTimeline\<rparr> else s)
             in (if truthy newPendingTickets
                 then s1\<lparr>pendingTickets := newPendingTickets\<rparr> else s1))
      else if type = JStr ''timeline_update'' then
        Inr (if truthy newTimeline then s\<lparr>timeline := newTimeline\<rparr> else s)
      else if type = JStr ''pending_tickets_update'' then
        Inr (if truthy newPendingTickets
             then s\<lparr>pendingTickets := newPendingTickets\<rparr> else s)
      else if type = JStr ''ticket_update'' then
        (case get_prop lastJsonMessage ''data'' of Inl e \<Rightarrow> Inl e | Inr d \<Rightarrow> Inr s)
      else if type = JStr ''connection_established'' then
        (case get_prop lastJsonMessage ''client_id'' of Inl e \<Rightarrow> Inl e | Inr c \<Rightarrow> Inr s)
      else if type = JStr ''error'' then
        (case get_prop lastJsonMessage ''message'' of Inl e \<Rightarrow> Inl e | Inr m \<Rightarrow> Inr s)
      else Inr s)"

text \<open>
  The effect body, run for each new \<^verbatim>\<open>lastJsonMessage\<close>: the guard, the
  \<^verbatim>\<open>setLastMessage\<close>, the destructuring and the switch.
\<close>

definition onJsonMessage :: "jsval \<Rightarrow> hook_state \<Rightarrow> js_error + hook_state" where
  "onJsonMessage lastJsonMessage s =
     (if truthy lastJsonMessage then
        (case get_prop lastJsonMessage ''type'' of
           Inl e \<Rightarrow> Inl e
         | Inr type \<Rightarrow>
            (case get_prop lastJsonMessage ''timeline'' of
               Inl e \<Rightarrow> Inl e
             | Inr newTimeline \<Rightarrow>
                (case get_prop lastJsonMessage ''pending_tickets'' of
                   Inl e \<Rightarrow> Inl e
                 | Inr newPendingTickets \<Rightarrow>
                    dispatch type newTimeline newPendingTickets lastJsonMessage
                      (s\<lparr>lastMessage := lastJsonMessage\<rparr>))))
      else Inr s)"

subsection \<open>The effects keyed on the ready state (lines 84 to 114)\<close>

fun connectionStatusMap :: "ReadyState \<Rightarrow> string" where
  "connectionStatusMap CONNECTING = ''Connecting''"
| "connectionStatusMap OPEN = ''Connected''"
| "connectionStatusMap CLOSING = ''Closing''"
| "connectionStatusMap CLOSED = ''Disconnected''"
| "connectionStatusMap UNINSTANTIATED = ''Uninstantiated''"

definition status_effect :: "hook_state \<Rightarrow> hook_state" where
  "status_effect s = s\<lparr>connectionStatus := connectionStatusMap (readyState s)\<rparr>"

definition subscribe_effect :: "hook_state \<Rightarrow> hook_state" where
  "subscribe_effect s =
     (if readyState s = OPEN then sendMessage Subscription subscribe_frame s else s)"

text \<open>\<^verbatim>\<open>setInterval(..., 30000)\<close> and the cleanup \<^verbatim>\<open>clearInterval(pingInterval)\<close>.\<close>

definition ping_effect :: "hook_state \<Rightarrow> hook_state" where
  "ping_effect s = (if readyState s = OPEN then s\<lparr>pingInterval := Some 30000\<rparr> else s)"

definition ping_cleanup :: "hook_state \<Rightarrow> hook_state" where
  "ping_cleanup s = s\<lparr>pingInterval := None\<rparr>"

text \<open>
  A render in which \<^verbatim>\<open>useWebSocket\<close> returns the ready state \<open>r\<close>. The three effects
  have \<^verbatim>\<open>readyState\<close> in their dependency lists (the other dependency, the package's
  \<^verbatim>\<open>sendMessage\<close>, is the same function in every render): when it is unchanged nothing
  runs; when it changed, the cleanup of the previous run comes first, then the effects in
  the order they are declared. The package's effect is declared inside
  \<^verbatim>\<open>useWebSocket\<close>, which the hook calls before it declares its own (line 14), so the
  queue is flushed before the hook subscribes.
\<close>

definition run_effects :: "hook_state \<Rightarrow> hook_state" where
  "run_effects s = ping_effect (subscribe_effect (status_effect s))"

definition render :: "ReadyState \<Rightarrow> hook_state \<Rightarrow> hook_state" where
  "render r s =
     (if r = readyState s then s
      else run_effects (package_flush (ping_cleanup
             (s\<lparr>readyState := r, rendered := insert r (rendered s)\<rparr>))))"

text \<open>
  The first render with ready state \<open>r\<close>: the initial values of the state cells, then
  every effect once (the message effect sees \<^verbatim>\<open>null\<close> and does nothing; the package
  has nothing queued). The package reports the state of the socket it creates.
\<close>

definition first_render :: "ReadyState \<Rightarrow> hook_state" where
  "first_render r =
     \<lparr>timeline = JArr [], pendingTickets = JArr [], connectionStatus = ''Connecting'',
      lastMessage = JNull, readyState = r, pingInterval = None, rendered = {r},
      outbox = [], socket = r, messageQueue = [], wire = [[]]\<rparr>"

definition mount :: "ReadyState \<Rightarrow> hook_state" where
  "mount r = run_effects (first_render r)"

subsection \<open>The heartbeat timer\<close>

definition ping_callback :: "hook_state \<Rightarrow> hook_state" where
  "ping_callback s = sendMessage Heartbeat ping_frame s"

text \<open>
  \<open>d\<close> milliseconds pass with no other event. With no live interval nothing happens;
  otherwise the clock moves to the next time the interval is due, its callback runs, the
  interval is due again 30000 ms later, and the rest of \<open>d\<close> passes the same way.
\<close>

function elapse :: "nat \<Rightarrow> hook_state \<Rightarrow> hook_state" where
  "elapse d s =
     (case pingInterval s of
        None \<Rightarrow> s
      | Some due \<Rightarrow>
          if d < due then s\<lparr>pingInterval := Some (due - d)\<rparr>
          else elapse (d - due) (ping_callback (s\<lparr>pingInterval := Some 30000\<rparr>)))"
  by pat_completeness auto
termination
  by (relation "measure (\<lambda>(d, s). 2 * d + (if pingInterval s = Some 0 then 1 else 0))")
     (auto simp: ping_callback_def sendMessage_def transmit_def)

declare elapse.simps [simp del]

subsection \<open>The consumer's send (lines 122 to 126)\<close>

text \<open>
  The \<^verbatim>\<open>sendMessage\<close> of the object returned by a render whose ready state was \<open>r\<close>: the
  test is on the \<^verbatim>\<open>readyState\<close> of that render, whatever the state at the time of the
  call.
\<close>

definition send :: "ReadyState \<Rightarrow> jsval \<Rightarrow> hook_state \<Rightarrow> hook_state" where
  "send r message s = (if r = OPEN then sendMessage Consumer message s else s)"

definition isConnected :: "hook_state \<Rightarrow> bool" where
  "isConnected s = (readyState s = OPEN)"

subsection \<open>Events\<close>

text \<open>
  The single things that can happen to a mounted hook: the package invokes one of the
  three callbacks, returns a ready state or a new decoded message to a render, reports
  that it has given up reconnecting (the options hold no handler for that, so no code of
  the hook runs), the hook is rendered again with nothing new, time passes, the consumer
  calls the \<^verbatim>\<open>sendMessage\<close> returned by a render whose ready state was \<open>r\<close>, or the
  browser socket changes its state (a socket that starts connecting is a new one).
\<close>

datatype event =
    Opened
  | Closed
  | Errored
  | ReconnectStopped
  | ReadyStateChange ReadyState
  | Rerender
  | JsonMessage jsval
  | Elapse nat
  | Send ReadyState jsval
  | SocketState ReadyState

definition socket_state :: "ReadyState \<Rightarrow> hook_state \<Rightarrow> hook_state" where
  "socket_state x s =
     (if x = CONNECTING then s\<lparr>socket := x, wire := [] # wire s\<rparr> else s\<lparr>socket := x\<rparr>)"

fun step :: "event \<Rightarrow> hook_state \<Rightarrow> js_error + hook_state" where
  "step Opened s = Inr (onOpen s)"
| "step Closed s = Inr (onClose s)"
| "step Errored s = Inr (onError s)"
| "step ReconnectStopped s = Inr s"
| "step (ReadyStateChange r) s = Inr (render r s)"
| "step Rerender s = Inr (render (readyState s) s)"
| "step (JsonMessage v) s = onJsonMessage v s"
| "step (Elapse d) s = Inr (elapse d s)"
| "step (Send r m) s = Inr (send r m s)"
| "step (SocketState x) s = Inr (socket_state x s)"

text \<open>A sequence of events; an exception ends it.\<close>

fun run :: "event list \<Rightarrow> hook_state \<Rightarrow> js_error + hook_state" where
  "run [] s = Inr s"
| "run (e # es) s = (case step e s of Inl err \<Rightarrow> Inl err | Inr s' \<Rightarrow> run es s')"

fun is_frame_event :: "event \<Rightarrow> bool" where
  "is_frame_event (JsonMessage v) = True"
| "is_frame_event e = False"

subsection \<open>What the package reports, and when\<close>

text \<open>
  The package calls the callbacks from its handlers of the socket's events and sets its
  ready state in the same handler, so the hook never runs between the two. A browser
  fires the error event of a socket only as part of closing it, with the close event
  next in the same task. Hence the things that happen to the hook as a whole:
  \<^item> the socket opens: \<^verbatim>\<open>onOpen\<close>, then a render with OPEN;
  \<^item> the socket starts closing: the hook is not told;
  \<^item> the socket closes: \<^verbatim>\<open>onClose\<close>, then a render with CLOSED;
  \<^item> the socket fails: \<^verbatim>\<open>onError\<close>, \<^verbatim>\<open>onClose\<close>, then a render with CLOSED;
  \<^item> the package connects again with a new socket: a render with CONNECTING;
  \<^item> the package gives up, a frame arrives, the hook is rendered again, time passes,
    the consumer calls a \<^verbatim>\<open>sendMessage\<close> it holds.
\<close>

datatype notice =
    SocketOpened
  | SocketClosing
  | SocketClosed
  | SocketFailed
  | Reconnecting
  | GaveUp
  | Frame jsval
  | Rerendered
  | Passed nat
  | Called ReadyState jsval

fun events_of :: "notice \<Rightarrow> event list" where
  "events_of SocketOpened = [SocketState OPEN, Opened, ReadyStateChange OPEN]"
| "events_of SocketClosing = [SocketState CLOSING]"
| "events_of SocketClosed = [SocketState CLOSED, Closed, ReadyStateChange CLOSED]"
| "events_of SocketFailed = [SocketState CLOSED, Errored, Closed, ReadyStateChange CLOSED]"
| "events_of Reconnecting = [SocketState CONNECTING, ReadyStateChange CONNECTING]"
| "events_of GaveUp = [ReconnectStopped]"
| "events_of (Frame v) = [JsonMessage v]"
| "events_of Rerendered = [Rerender]"
| "events_of (Passed d) = [Elapse d]"
| "events_of (Called r m) = [Send r m]"

definition deliver :: "notice list \<Rightarrow> hook_state \<Rightarrow> js_error + hook_state" where
  "deliver ns s = run (concat (map events_of ns)) s"

text \<open>
  When each can happen: a socket opens out of CONNECTING, starts closing out of OPEN,
  closes or fails while it is not yet closed, and is replaced once it is closed; frames
  arrive on a socket that has opened; the consumer can only call a function that some
  render has returned.
\<close>

fun enabled :: "notice \<Rightarrow> hook_state \<Rightarrow> bool" where
  "enabled SocketOpened s = (socket s = CONNECTING)"
| "enabled SocketClosing s = (socket s = OPEN)"
| "enabled SocketClosed s = (socket s = OPEN \<or> socket s = CLOSING)"
| "enabled SocketFailed s = (socket s = CONNECTING \<or> socket s = OPEN \<or> socket s = CLOSING)"
| "enabled Reconnecting s = (socket s = CLOSED)"
| "enabled GaveUp s = (socket s = CLOSED)"
| "enabled (Frame v) s = (socket s = OPEN \<or> socket s = CLOSING)"
| "enabled Rerendered s = True"
| "enabled (Passed d) s = True"
| "enabled (Called r m) s = (r \<in> rendered s)"

fun feasible :: "notice list \<Rightarrow> hook_state \<Rightarrow> bool" where
  "feasible [] s = True"
| "feasible (n # ns) s =
     (enabled n s \<and> (case deliver [n] s of Inl e \<Rightarrow> False | Inr s' \<Rightarrow> feasible ns s'))"

text \<open>The notices that leave the hook connected, and the two that end a connection.\<close>

fun keeps_connection :: "notice \<Rightarrow> bool" where
  "keeps_connection SocketClosing = True"
| "keeps_connection (Frame v) = True"
| "keeps_connection Rerendered = True"
| "keeps_connection (Passed d) = True"
| "keeps_connection (Called r m) = True"
| "keeps_connection n = False"





subsection \<open>Vocabulary of the properties\<close>

text \<open>The case labels of the switch.\<close>

definition recognized_tags :: "jsval list" where
  "recognized_tags =
     [JStr ''initial_data'', JStr ''timeline_update'', JStr ''pending_tickets_update'',
      JStr ''ticket_update'', JStr ''connection_established'', JStr ''error'']"

text \<open>A field that is missing from the frame or is \<^verbatim>\<open>null\<close>.\<close>

definition absent :: "jsval \<Rightarrow> bool" where
  "absent v = (v = JUndefined \<or> v = JNull)"

text \<open>
  What holds of the hook between two notices: the status string is the name of the ready
  state, the interval timer is live exactly while the ready state is OPEN, and the
  latest render has seen the ready state.
\<close>

definition in_step :: "hook_state \<Rightarrow> bool" where
  "in_step s =
     (connectionStatus s = connectionStatusMap (readyState s)
      \<and> (pingInterval s = None) = (readyState s \<noteq> OPEN)
      \<and> readyState s \<in> rendered s)"

text \<open>
  What holds of the package when the notices come as they can: the ready state is the
  socket's state, but for a closing socket, which still counts as OPEN; a socket that
  has not opened has sent nothing; no subscription waits in the queue.
\<close>

definition linked :: "hook_state \<Rightarrow> bool" where
  "linked s =
     (readyState s = (if socket s = CLOSING then OPEN else socket s)
      \<and> socket s \<noteq> UNINSTANTIATED
      \<and> wire s \<noteq> []
      \<and> (if socket s = CONNECTING then hd (wire s) = [] else True)
      \<and> Subscription \<notin> fst ` set (messageQueue s))"

subsection \<open>Concrete frames and states\<close>

definition frame_a :: jsval where
  "frame_a =
     JObj [(''type'', JStr ''timeline_update''),
           (''timeline'',
            JArr [JObj [(''ticket_id'', JNum 1), (''title'', JStr ''T1''),
                        (''status'', JStr ''pending''),
                        (''steps'', JArr [JStr ''received''])]])]"

definition frame_b :: jsval where
  "frame_b = JObj [(''type'', JStr ''timeline_update''), (''timeline'', JArr [])]"

definition frame_unknown :: jsval where
  "frame_unknown = JObj [(''type'', JStr ''unsupported_xyz'')]"

definition frame_pending :: jsval where
  "frame_pending =
     JObj [(''type'', JStr ''pending_tickets_update''),
           (''pending_tickets'', JArr [JObj [(''id'', JNum 7), (''title'', JStr ''P'')]])]"

definition frame_hollow :: jsval where
  "frame_hollow = JObj [(''type'', JStr ''initial_data''), (''timeline'', JNull)]"

definition state_with_data :: hook_state where
  "state_with_data =
     \<lparr>timeline = JArr [JObj [(''ticket_id'', JNum 1), (''status'', JStr ''pending'')]],
      pendingTickets = JArr [JObj [(''id'', JNum 7), (''title'', JStr ''P'')]],
      connectionStatus = ''Connected'', lastMessage = JObj [(''type'', JStr ''initial_data'')],
      readyState = OPEN, pingInterval = Some 12000, rendered = {CONNECTING, OPEN},
      outbox = [(Subscription, subscribe_frame)], socket = OPEN, messageQueue = [],
      wire = [[(Subscription, subscribe_frame)]]\<rparr>"

section \<open>Properties\<close>

lemmas effect_defs = mount_def run_effects_def status_effect_def subscribe_effect_def
  ping_effect_def ping_cleanup_def first_render_def render_def sendMessage_def
  onOpen_def onClose_def onError_def send_def ping_callback_def transmit_def
  package_flush_def socket_state_def

subsection \<open>No event throws\<close>

lemma get_prop_truthy: "truthy v \<Longrightarrow> get_prop v k = Inr (field v k)"
  by (cases v) (simp_all add: field_def)

lemma field_str_truthy: "field v k = JStr t \<Longrightarrow> truthy v"
  by (cases v) (simp_all add: field_def)

lemma dispatch_total: "truthy v \<Longrightarrow> \<exists>s'. dispatch t a b v s = Inr s'"
  by (simp add: dispatch_def get_prop_truthy)

lemma onJsonMessage_truthy:
  "truthy v \<Longrightarrow> onJsonMessage v s =
     dispatch (field v ''type'') (field v ''timeline'') (field v ''pending_tickets'') v
       (s\<lparr>lastMessage := v\<rparr>)"
  by (simp add: onJsonMessage_def get_prop_truthy)

lemma onJsonMessage_falsy: "\<not> truthy v \<Longrightarrow> onJsonMessage v s = Inr s"
  by (simp add: onJsonMessage_def)

lemma onJsonMessage_total: "\<exists>s'. onJsonMessage v s = Inr s'"
  by (cases "truthy v") (simp_all add: onJsonMessage_truthy onJsonMessage_falsy dispatch_total)

lemma step_total: "\<exists>s'. step e s = Inr s'"
  by (cases e) (simp_all add: onJsonMessage_total)

lemma run_total: "\<exists>s'. run es s = Inr s'"
proof (induction es arbitrary: s)
  case Nil
  show ?case by simp
next
  case (Cons e es)
  obtain s1 where "step e s = Inr s1" using step_total by blast
  with Cons show ?case by simp
qed

lemma run_append:
  "run (es @ es') s = (case run es s of Inl err \<Rightarrow> Inl err | Inr s' \<Rightarrow> run es' s')"
  by (induction es arbitrary: s) (simp_all split: sum.splits)

lemma deliver_total: "\<exists>s'. deliver ns s = Inr s'"
  by (simp add: deliver_def run_total)

lemma deliver_Nil: "deliver [] s = Inr s"
  by (simp add: deliver_def)

lemma deliver_Cons:
  "deliver [n] s = Inr s1 \<Longrightarrow> deliver (n # ns) s = deliver ns s1"
  by (simp add: deliver_def run_append)


text \<open>A frame touches nothing but the three cells of the message effect.\<close>

lemma onJsonMessage_frame:
  "onJsonMessage v s = Inr s' \<Longrightarrow>
   outbox s' = outbox s \<and> pingInterval s' = pingInterval s \<and> readyState s' = readyState s
   \<and> connectionStatus s' = connectionStatus s \<and> rendered s' = rendered s
   \<and> socket s' = socket s \<and> messageQueue s' = messageQueue s \<and> wire s' = wire s"
  by (cases "truthy v")
     (auto simp: onJsonMessage_truthy onJsonMessage_falsy dispatch_def Let_def get_prop_truthy
           split: if_splits)

subsection \<open>The package's send and flush\<close>

lemma transmit_hook:
  "timeline (transmit f s) = timeline s \<and> pendingTickets (transmit f s) = pendingTickets s
   \<and> lastMessage (transmit f s) = lastMessage s
   \<and> connectionStatus (transmit f s) = connectionStatus s
   \<and> readyState (transmit f s) = readyState s \<and> pingInterval (transmit f s) = pingInterval s
   \<and> rendered (transmit f s) = rendered s \<and> outbox (transmit f s) = outbox s
   \<and> socket (transmit f s) = socket s"
  by (simp add: transmit_def)

lemma fold_transmit_hook:
  "timeline (fold transmit q s) = timeline s \<and> pendingTickets (fold transmit q s) = pendingTickets s
   \<and> lastMessage (fold transmit q s) = lastMessage s
   \<and> connectionStatus (fold transmit q s) = connectionStatus s
   \<and> readyState (fold transmit q s) = readyState s
   \<and> pingInterval (fold transmit q s) = pingInterval s
   \<and> rendered (fold transmit q s) = rendered s \<and> outbox (fold transmit q s) = outbox s
   \<and> socket (fold transmit q s) = socket s"
  by (induction q arbitrary: s) (simp_all add: transmit_hook)

lemma fold_transmit_open:
  "socket s = OPEN \<Longrightarrow> wire s = c # cs \<Longrightarrow>
   wire (fold transmit q s) = (c @ q) # cs \<and> messageQueue (fold transmit q s) = messageQueue s"
proof (induction q arbitrary: s c)
  case Nil
  then show ?case by simp
next
  case (Cons f q)
  have "socket (transmit f s) = OPEN" "wire (transmit f s) = (c @ [f]) # cs"
    "messageQueue (transmit f s) = messageQueue s"
    using Cons.prems by (simp_all add: transmit_def)
  from Cons.IH [OF this(1,2)] this(3) show ?case by simp
qed

lemma package_flush_hook:
  "timeline (package_flush s) = timeline s \<and> pendingTickets (package_flush s) = pendingTickets s
   \<and> lastMessage (package_flush s) = lastMessage s
   \<and> connectionStatus (package_flush s) = connectionStatus s
   \<and> readyState (package_flush s) = readyState s
   \<and> pingInterval (package_flush s) = pingInterval s
   \<and> rendered (package_flush s) = rendered s \<and> outbox (package_flush s) = outbox s
   \<and> socket (package_flush s) = socket s"
  by (simp add: package_flush_def fold_transmit_hook)

text \<open>What a render with a new ready state does to the hook's own cells.\<close>

lemma render_hook:
  assumes "r \<noteq> readyState s"
  shows "timeline (render r s) = timeline s \<and> pendingTickets (render r s) = pendingTickets s
   \<and> lastMessage (render r s) = lastMessage s
   \<and> connectionStatus (render r s) = connectionStatusMap r
   \<and> readyState (render r s) = r
   \<and> pingInterval (render r s) = (if r = OPEN then Some 30000 else None)
   \<and> rendered (render r s) = insert r (rendered s)
   \<and> outbox (render r s)
       = outbox s @ (if r = OPEN then [(Subscription, subscribe_frame)] else [])
   \<and> socket (render r s) = socket s"
  using assms
  by (simp add: render_def run_effects_def ping_effect_def subscribe_effect_def
        status_effect_def sendMessage_def transmit_hook package_flush_hook ping_cleanup_def)

lemma render_same: "render (readyState s) s = s"
  by (simp add: render_def)

subsection \<open>The timer\<close>

lemma elapse_None: "pingInterval s = None \<Longrightarrow> elapse d s = s"
  by (simp add: elapse.simps)

lemma elapse_early:
  "pingInterval s = Some due \<Longrightarrow> d < due \<Longrightarrow> elapse d s = s\<lparr>pingInterval := Some (due - d)\<rparr>"
  by (simp add: elapse.simps)

lemma elapse_due:
  "pingInterval s = Some due \<Longrightarrow> \<not> d < due \<Longrightarrow>
   elapse d s = elapse (d - due) (ping_callback (s\<lparr>pingInterval := Some 30000\<rparr>))"
  by (subst elapse.simps) simp

lemma ping_callback_hook:
  "timeline (ping_callback s) = timeline s \<and> pendingTickets (ping_callback s) = pendingTickets s
   \<and> lastMessage (ping_callback s) = lastMessage s
   \<and> connectionStatus (ping_callback s) = connectionStatus s
   \<and> readyState (ping_callback s) = readyState s
   \<and> pingInterval (ping_callback s) = pingInterval s
   \<and> rendered (ping_callback s) = rendered s \<and> socket (ping_callback s) = socket s
   \<and> outbox (ping_callback s) = outbox s @ [(Heartbeat, ping_frame)]"
  by (simp add: ping_callback_def sendMessage_def transmit_hook)

lemma elapse_frame:
  "timeline (elapse d s) = timeline s \<and> pendingTickets (elapse d s) = pendingTickets s
   \<and> lastMessage (elapse d s) = lastMessage s \<and> connectionStatus (elapse d s) = connectionStatus s
   \<and> readyState (elapse d s) = readyState s \<and> rendered (elapse d s) = rendered s
   \<and> socket (elapse d s) = socket s
   \<and> (pingInterval (elapse d s) = None) = (pingInterval s = None)"
proof (induction d s rule: elapse.induct)
  case (1 d s)
  show ?case
  proof (cases "pingInterval s")
    case None
    then show ?thesis by (simp add: elapse_None)
  next
    case (Some due)
    show ?thesis
    proof (cases "d < due")
      case True
      then show ?thesis using Some by (simp add: elapse_early)
    next
      case False
      from "1.IH" [OF Some False] show ?thesis
        using Some False by (simp add: elapse_due ping_callback_hook)
    qed
  qed
qed


text \<open>Where the frames of a stretch of time go: onto the current socket or into the queue.\<close>

lemma transmit_grows:
  assumes "wire s = c # cs" "fst f \<noteq> Subscription"
  shows "\<exists>w q. wire (transmit f s) = (c @ w) # cs
           \<and> messageQueue (transmit f s) = messageQueue s @ q
           \<and> Subscription \<notin> fst ` set w \<and> Subscription \<notin> fst ` set q"
proof (cases "socket s = OPEN")
  case True
  then have "wire (transmit f s) = (c @ [f]) # cs \<and> messageQueue (transmit f s) = messageQueue s @ []"
    using assms(1) by (simp add: transmit_def)
  moreover have "Subscription \<notin> fst ` set [f]" "Subscription \<notin> fst ` set ([] :: frame list)"
    using assms(2) by auto
  ultimately show ?thesis by blast
next
  case False
  then have "wire (transmit f s) = (c @ []) # cs \<and> messageQueue (transmit f s) = messageQueue s @ [f]"
    using assms(1) by (simp add: transmit_def)
  moreover have "Subscription \<notin> fst ` set [f]" "Subscription \<notin> fst ` set ([] :: frame list)"
    using assms(2) by auto
  ultimately show ?thesis by blast
qed

lemma grows_trans:
  assumes "wire s1 = (c @ w1) # cs \<and> messageQueue s1 = messageQueue s @ q1
           \<and> Subscription \<notin> fst ` set w1 \<and> Subscription \<notin> fst ` set q1"
    and "\<exists>w q. wire s2 = ((c @ w1) @ w) # cs \<and> messageQueue s2 = messageQueue s1 @ q
           \<and> Subscription \<notin> fst ` set w \<and> Subscription \<notin> fst ` set q"
  shows "\<exists>w q. wire s2 = (c @ w) # cs \<and> messageQueue s2 = messageQueue s @ q
           \<and> Subscription \<notin> fst ` set w \<and> Subscription \<notin> fst ` set q"
proof -
  from assms(2) obtain w2 q2 where
    b: "wire s2 = ((c @ w1) @ w2) # cs" "messageQueue s2 = messageQueue s1 @ q2"
       "Subscription \<notin> fst ` set w2" "Subscription \<notin> fst ` set q2" by blast
  have "wire s2 = (c @ (w1 @ w2)) # cs" using b(1) by simp
  moreover have "messageQueue s2 = messageQueue s @ (q1 @ q2)" using b(2) assms(1) by simp
  moreover have "Subscription \<notin> fst ` set (w1 @ w2)" "Subscription \<notin> fst ` set (q1 @ q2)"
    using assms(1) b(3,4) by auto
  ultimately show ?thesis by blast
qed

lemma grows_refl:
  "wire s = c # cs \<Longrightarrow>
   \<exists>w q. wire s = (c @ w) # cs \<and> messageQueue s = messageQueue s @ q
           \<and> Subscription \<notin> fst ` set w \<and> Subscription \<notin> fst ` set q"
proof -
  assume "wire s = c # cs"
  then have "wire s = (c @ []) # cs \<and> messageQueue s = messageQueue s @ []
           \<and> Subscription \<notin> fst ` set ([] :: frame list)
           \<and> Subscription \<notin> fst ` set ([] :: frame list)" by simp
  then show ?thesis by blast
qed

lemma elapse_grows:
  "wire s = c # cs \<Longrightarrow>
   \<exists>w q. wire (elapse d s) = (c @ w) # cs \<and> messageQueue (elapse d s) = messageQueue s @ q
           \<and> Subscription \<notin> fst ` set w \<and> Subscription \<notin> fst ` set q"
proof (induction d s arbitrary: c rule: elapse.induct)
  case (1 d s)
  show ?case
  proof (cases "pingInterval s")
    case None
    then show ?thesis using grows_refl [OF "1.prems"] by (simp add: elapse_None)
  next
    case (Some due)
    show ?thesis
    proof (cases "d < due")
      case True
      have "wire (s\<lparr>pingInterval := Some (due - d)\<rparr>) = c # cs" using "1.prems" by simp
      from grows_refl [OF this] show ?thesis using Some True by (simp add: elapse_early)
    next
      case False
      let ?s0 = "s\<lparr>pingInterval := Some 30000, outbox := outbox s @ [(Heartbeat, ping_frame)]\<rparr>"
      let ?s1 = "ping_callback (s\<lparr>pingInterval := Some 30000\<rparr>)"
      have s1: "?s1 = transmit (Heartbeat, ping_frame) ?s0"
        by (simp add: ping_callback_def sendMessage_def)
      have w0: "wire ?s0 = c # cs" using "1.prems" by simp
      from transmit_grows [OF w0, of "(Heartbeat, ping_frame)"] obtain w1 q1 where
        a: "wire ?s1 = (c @ w1) # cs" "messageQueue ?s1 = messageQueue s @ q1"
           "Subscription \<notin> fst ` set w1" "Subscription \<notin> fst ` set q1"
        unfolding s1 by auto
      from "1.IH" [OF Some False a(1)] have
        "\<exists>w q. wire (elapse (d - due) ?s1) = ((c @ w1) @ w) # cs
           \<and> messageQueue (elapse (d - due) ?s1) = messageQueue ?s1 @ q
           \<and> Subscription \<notin> fst ` set w \<and> Subscription \<notin> fst ` set q" .
      from grows_trans [OF _ this, of s] a
      have "\<exists>w q. wire (elapse (d - due) ?s1) = (c @ w) # cs
           \<and> messageQueue (elapse (d - due) ?s1) = messageQueue s @ q
           \<and> Subscription \<notin> fst ` set w \<and> Subscription \<notin> fst ` set q" by simp
      then show ?thesis using Some False by (simp add: elapse_due)
    qed
  qed
qed




subsection \<open>Single notices\<close>

lemma deliver_SocketOpened:
  "deliver [SocketOpened] s = Inr (render OPEN (onOpen (socket_state OPEN s)))"
  by (simp add: deliver_def)

lemma deliver_SocketClosing: "deliver [SocketClosing] s = Inr (socket_state CLOSING s)"
  by (simp add: deliver_def)

lemma deliver_SocketClosed:
  "deliver [SocketClosed] s = Inr (render CLOSED (onClose (socket_state CLOSED s)))"
  by (simp add: deliver_def)

lemma deliver_SocketFailed:
  "deliver [SocketFailed] s = Inr (render CLOSED (onClose (onError (socket_state CLOSED s))))"
  by (simp add: deliver_def)

lemma deliver_Reconnecting:
  "deliver [Reconnecting] s = Inr (render CONNECTING (socket_state CONNECTING s))"
  by (simp add: deliver_def)

lemma deliver_GaveUp: "deliver [GaveUp] s = Inr s"
  by (simp add: deliver_def)

lemma deliver_Frame: "deliver [Frame v] s = onJsonMessage v s"
  by (simp add: deliver_def split: sum.splits)

lemma deliver_Rerendered: "deliver [Rerendered] s = Inr s"
  by (simp add: deliver_def render_same)

lemma deliver_Passed: "deliver [Passed d] s = Inr (elapse d s)"
  by (simp add: deliver_def)

lemma deliver_Called: "deliver [Called r m] s = Inr (send r m s)"
  by (simp add: deliver_def)

lemmas deliver_one = deliver_SocketOpened deliver_SocketClosing deliver_SocketClosed
  deliver_SocketFailed deliver_Reconnecting deliver_GaveUp deliver_Frame deliver_Rerendered
  deliver_Passed deliver_Called

lemma send_hook:
  "timeline (send r m s) = timeline s \<and> pendingTickets (send r m s) = pendingTickets s
   \<and> lastMessage (send r m s) = lastMessage s
   \<and> connectionStatus (send r m s) = connectionStatus s
   \<and> readyState (send r m s) = readyState s \<and> pingInterval (send r m s) = pingInterval s
   \<and> rendered (send r m s) = rendered s \<and> socket (send r m s) = socket s
   \<and> outbox (send r m s) = outbox s @ (if r = OPEN then [(Consumer, m)] else [])"
  by (simp add: send_def sendMessage_def transmit_hook)

subsection \<open>Between notices the status names the ready state\<close>

lemma render_in_step:
  assumes "r \<noteq> readyState t \<or> in_step t"
  shows "in_step (render r t)"
proof (cases "r = readyState t")
  case True
  then show ?thesis using assms by (simp add: render_def)
next
  case False
  then show ?thesis using render_hook [OF False] by (simp add: in_step_def)
qed

lemma mount_in_step: "in_step (mount r)"
  by (cases r) (simp_all add: in_step_def effect_defs)

lemma socket_state_in_step: "in_step s \<Longrightarrow> in_step (socket_state x s)"
  by (simp add: in_step_def socket_state_def)

lemma opened_in_step: "in_step s \<Longrightarrow> in_step (render OPEN (onOpen (socket_state OPEN s)))"
proof -
  assume "in_step s"
  then have "OPEN \<noteq> readyState (onOpen (socket_state OPEN s))
             \<or> in_step (onOpen (socket_state OPEN s))"
    by (auto simp: in_step_def onOpen_def socket_state_def)
  then show ?thesis by (rule render_in_step)
qed

lemma closed_in_step: "in_step s \<Longrightarrow> in_step (render CLOSED (onClose (socket_state CLOSED s)))"
proof -
  assume "in_step s"
  then have "CLOSED \<noteq> readyState (onClose (socket_state CLOSED s))
             \<or> in_step (onClose (socket_state CLOSED s))"
    by (auto simp: in_step_def onClose_def socket_state_def)
  then show ?thesis by (rule render_in_step)
qed

lemma failed_in_step:
  "in_step s \<Longrightarrow> in_step (render CLOSED (onClose (onError (socket_state CLOSED s))))"
proof -
  assume "in_step s"
  then have "CLOSED \<noteq> readyState (onClose (onError (socket_state CLOSED s)))
             \<or> in_step (onClose (onError (socket_state CLOSED s)))"
    by (auto simp: in_step_def onClose_def onError_def socket_state_def)
  then show ?thesis by (rule render_in_step)
qed

lemma reconnecting_in_step:
  "in_step s \<Longrightarrow> in_step (render CONNECTING (socket_state CONNECTING s))"
  by (rule render_in_step) (simp add: socket_state_in_step)

lemma frame_in_step: "in_step s \<Longrightarrow> onJsonMessage v s = Inr s' \<Longrightarrow> in_step s'"
  using onJsonMessage_frame [of v s s'] by (simp add: in_step_def)

lemma elapse_in_step: "in_step s \<Longrightarrow> in_step (elapse d s)"
  using elapse_frame [of d s] by (simp add: in_step_def)

lemma send_in_step: "in_step s \<Longrightarrow> in_step (send r m s)"
  using send_hook [of r m s] by (simp add: in_step_def)

lemma notice_in_step:
  assumes "in_step s" "deliver [n] s = Inr s'"
  shows "in_step s'"
proof (cases n)
  case SocketOpened
  then have "s' = render OPEN (onOpen (socket_state OPEN s))"
    using assms(2) by (simp add: deliver_SocketOpened)
  then show ?thesis using opened_in_step [OF assms(1)] by simp
next
  case SocketClosing
  then have "s' = socket_state CLOSING s" using assms(2) by (simp add: deliver_SocketClosing)
  then show ?thesis using socket_state_in_step [OF assms(1)] by simp
next
  case SocketClosed
  then have "s' = render CLOSED (onClose (socket_state CLOSED s))"
    using assms(2) by (simp add: deliver_SocketClosed)
  then show ?thesis using closed_in_step [OF assms(1)] by simp
next
  case SocketFailed
  then have "s' = render CLOSED (onClose (onError (socket_state CLOSED s)))"
    using assms(2) by (simp add: deliver_SocketFailed)
  then show ?thesis using failed_in_step [OF assms(1)] by simp
next
  case Reconnecting
  then have "s' = render CONNECTING (socket_state CONNECTING s)"
    using assms(2) by (simp add: deliver_Reconnecting)
  then show ?thesis using reconnecting_in_step [OF assms(1)] by simp
next
  case GaveUp
  then have "s' = s" using assms(2) by (simp add: deliver_GaveUp)
  then show ?thesis using assms(1) by simp
next
  case (Frame v)
  then have "onJsonMessage v s = Inr s'" using assms(2) by (simp add: deliver_Frame)
  then show ?thesis using assms(1) by (rule frame_in_step [rotated])
next
  case Rerendered
  then have "s' = s" using assms(2) by (simp add: deliver_Rerendered)
  then show ?thesis using assms(1) by simp
next
  case (Passed d)
  then have "s' = elapse d s" using assms(2) by (simp add: deliver_Passed)
  then show ?thesis using elapse_in_step [OF assms(1)] by simp
next
  case (Called r m)
  then have "s' = send r m s" using assms(2) by (simp add: deliver_Called)
  then show ?thesis using send_in_step [OF assms(1)] by simp
qed

lemma deliver_in_step:
  "in_step s \<Longrightarrow> deliver ns s = Inr s' \<Longrightarrow> in_step s'"
proof (induction ns arbitrary: s)
  case Nil
  then show ?case by (simp add: deliver_Nil)
next
  case (Cons n ns)
  obtain s1 where s1: "deliver [n] s = Inr s1" using deliver_total by blast
  then have "in_step s1" using Cons.prems(1) notice_in_step by blast
  moreover have "deliver ns s1 = Inr s'" using Cons.prems(2) deliver_Cons [OF s1] by simp
  ultimately show ?case using Cons.IH by blast
qed

lemma reach_in_step: "deliver ns (mount r0) = Inr s \<Longrightarrow> in_step s"
  using deliver_in_step [OF mount_in_step] .

lemma in_step_status:
  "in_step s \<Longrightarrow> (connectionStatus s = ''Connected'') = (readyState s = OPEN)"
  by (cases "readyState s") (simp_all add: in_step_def)

subsection \<open>The socket, the queue and the wire\<close>

text \<open>A render that sees OPEN on an open socket: the queue goes out, then the subscription.\<close>

lemma render_OPEN_wire:
  assumes "readyState t \<noteq> OPEN" "socket t = OPEN" "wire t = c # cs"
  shows "wire (render OPEN t) = (c @ messageQueue t @ [(Subscription, subscribe_frame)]) # cs
         \<and> messageQueue (render OPEN t) = []"
proof -
  let ?t0 = "(ping_cleanup (t\<lparr>readyState := OPEN, rendered := insert OPEN (rendered t)\<rparr>))
               \<lparr>messageQueue := []\<rparr>"
  let ?t1 = "fold transmit (messageQueue t) ?t0"
  have a: "socket ?t0 = OPEN" "wire ?t0 = c # cs" "messageQueue ?t0 = []"
    using assms(2,3) by (simp_all add: ping_cleanup_def)
  from fold_transmit_open [OF a(1,2), of "messageQueue t"] a(3)
  have w1: "wire ?t1 = (c @ messageQueue t) # cs" "messageQueue ?t1 = []" by simp_all
  have h1: "socket ?t1 = OPEN" "readyState ?t1 = OPEN"
    using a(1) by (simp_all add: fold_transmit_hook ping_cleanup_def)
  have f: "package_flush (ping_cleanup (t\<lparr>readyState := OPEN, rendered := insert OPEN (rendered t)\<rparr>))
             = ?t1"
    by (simp add: package_flush_def ping_cleanup_def)
  have r: "render OPEN t = ping_effect (subscribe_effect (status_effect ?t1))"
    using assms(1) by (simp add: render_def run_effects_def f)
  show ?thesis
    unfolding r using w1 h1
    by (simp add: ping_effect_def subscribe_effect_def status_effect_def sendMessage_def
          transmit_def)
qed

text \<open>A render that sees anything else sends nothing.\<close>

lemma render_other_wire:
  assumes "r \<noteq> OPEN"
  shows "wire (render r t) = wire t \<and> messageQueue (render r t) = messageQueue t"
  using assms by (simp add: effect_defs)

lemma send_grows:
  assumes "wire s = c # cs"
  shows "\<exists>w q. wire (send r m s) = (c @ w) # cs \<and> messageQueue (send r m s) = messageQueue s @ q
           \<and> Subscription \<notin> fst ` set w \<and> Subscription \<notin> fst ` set q"
proof (cases "r = OPEN")
  case True
  let ?s0 = "s\<lparr>outbox := outbox s @ [(Consumer, m)]\<rparr>"
  have e: "send r m s = transmit (Consumer, m) ?s0" using True by (simp add: send_def sendMessage_def)
  have "wire ?s0 = c # cs" using assms by simp
  from transmit_grows [OF this, of "(Consumer, m)"] show ?thesis unfolding e by simp
next
  case False
  then show ?thesis using grows_refl [OF assms] by (simp add: send_def)
qed

text \<open>A notice that leaves the hook connected adds no subscription anywhere.\<close>

lemma notice_grows:
  assumes "wire s = c # cs" "keeps_connection n"
  shows "\<exists>s' w q. deliver [n] s = Inr s' \<and> wire s' = (c @ w) # cs
           \<and> messageQueue s' = messageQueue s @ q
           \<and> Subscription \<notin> fst ` set w \<and> Subscription \<notin> fst ` set q"
proof (cases n)
  case SocketClosing
  have "wire (socket_state CLOSING s) = c # cs"
    "messageQueue (socket_state CLOSING s) = messageQueue s"
    using assms(1) by (simp_all add: socket_state_def)
  with grows_refl [of "socket_state CLOSING s" c cs] show ?thesis
    using SocketClosing by (simp add: deliver_SocketClosing)
next
  case (Frame v)
  obtain s' where s': "onJsonMessage v s = Inr s'" using onJsonMessage_total by blast
  then have "wire s' = c # cs" "messageQueue s' = messageQueue s"
    using onJsonMessage_frame [OF s'] assms(1) by simp_all
  with grows_refl [of s' c cs] show ?thesis using Frame s' by (simp add: deliver_Frame)
next
  case Rerendered
  then show ?thesis using grows_refl [OF assms(1)] by (simp add: deliver_Rerendered)
next
  case (Passed d)
  then show ?thesis using elapse_grows [OF assms(1), of d] by (simp add: deliver_Passed)
next
  case (Called r m)
  then show ?thesis using send_grows [OF assms(1), of r m] by (simp add: deliver_Called)
qed (use assms(2) in simp_all)

lemma stretch_grows:
  assumes "wire s = c # cs" "\<forall>n\<in>set ns. keeps_connection n"
  shows "\<exists>s' w q. deliver ns s = Inr s' \<and> wire s' = (c @ w) # cs
           \<and> messageQueue s' = messageQueue s @ q
           \<and> Subscription \<notin> fst ` set w \<and> Subscription \<notin> fst ` set q"
  using assms
proof (induction ns arbitrary: s c)
  case Nil
  then show ?case using grows_refl [of s c cs] by (simp add: deliver_Nil)
next
  case (Cons n ns)
  have k: "keeps_connection n" using Cons.prems(2) by simp
  from notice_grows [OF Cons.prems(1) k] obtain s1 w1 q1 where
    a: "deliver [n] s = Inr s1" "wire s1 = (c @ w1) # cs" "messageQueue s1 = messageQueue s @ q1"
       "Subscription \<notin> fst ` set w1" "Subscription \<notin> fst ` set q1" by blast
  have r: "\<forall>n\<in>set ns. keeps_connection n" using Cons.prems(2) by simp
  from Cons.IH [OF a(2) r] obtain s2 where
    b: "deliver ns s1 = Inr s2"
       "\<exists>w q. wire s2 = ((c @ w1) @ w) # cs \<and> messageQueue s2 = messageQueue s1 @ q
           \<and> Subscription \<notin> fst ` set w \<and> Subscription \<notin> fst ` set q" by blast
  have "deliver (n # ns) s = Inr s2" using deliver_Cons [OF a(1)] b(1) by simp
  moreover have "\<exists>w q. wire s2 = (c @ w) # cs \<and> messageQueue s2 = messageQueue s @ q
           \<and> Subscription \<notin> fst ` set w \<and> Subscription \<notin> fst ` set q"
    using grows_trans [OF _ b(2), of s] a(2-5) by simp
  ultimately show ?case by blast
qed

subsection \<open>Heartbeats of a connected stretch\<close>



subsection \<open>When the notices come as they can, the package and the hook agree\<close>

lemma mount_linked: "linked (mount CONNECTING)"
  by (simp add: linked_def effect_defs)

lemma opened_linked:
  assumes "linked s" "socket s = CONNECTING"
  shows "linked (render OPEN (onOpen (socket_state OPEN s)))"
proof -
  let ?t = "onOpen (socket_state OPEN s)"
  obtain c cs where w: "wire s = c # cs" using assms(1) by (cases "wire s") (simp_all add: linked_def)
  have t: "readyState ?t \<noteq> OPEN" "socket ?t = OPEN" "wire ?t = c # cs"
    using assms w by (simp_all add: linked_def onOpen_def socket_state_def)
  from render_OPEN_wire [OF t] render_hook [of OPEN ?t] t(1,2)
  show ?thesis by (simp add: linked_def)
qed

lemma closing_linked:
  assumes "linked s" "socket s = OPEN"
  shows "linked (socket_state CLOSING s)"
  using assms by (simp add: linked_def socket_state_def)

lemma closed_linked:
  assumes "linked s" "socket s \<noteq> CLOSED" "t = onClose (socket_state CLOSED s) \<or>
      t = onClose (onError (socket_state CLOSED s))"
  shows "linked (render CLOSED t)"
proof -
  have t: "readyState t \<noteq> CLOSED" "socket t = CLOSED" "wire t = wire s"
    "messageQueue t = messageQueue s"
    using assms by (auto simp: linked_def onClose_def onError_def socket_state_def split: if_splits)
  have "CLOSED \<noteq> readyState t" using t(1) by simp
  from render_hook [OF this] render_other_wire [of CLOSED t] t assms(1)
  show ?thesis by (simp add: linked_def)
qed

lemma reconnecting_linked:
  assumes "linked s" "socket s = CLOSED"
  shows "linked (render CONNECTING (socket_state CONNECTING s))"
proof -
  let ?t = "socket_state CONNECTING s"
  have t: "readyState ?t \<noteq> CONNECTING" "socket ?t = CONNECTING" "wire ?t = [] # wire s"
    "messageQueue ?t = messageQueue s"
    using assms by (simp_all add: linked_def socket_state_def)
  have "CONNECTING \<noteq> readyState ?t" using t(1) by simp
  from render_hook [OF this] render_other_wire [of CONNECTING ?t] t assms(1)
  show ?thesis by (simp add: linked_def)
qed

lemma frame_linked: "linked s \<Longrightarrow> onJsonMessage v s = Inr s' \<Longrightarrow> linked s'"
  using onJsonMessage_frame [of v s s'] by (simp add: linked_def)

lemma elapse_linked:
  assumes "linked s" "in_step s"
  shows "linked (elapse d s)"
proof (cases "readyState s = OPEN")
  case False
  then have "pingInterval s = None" using assms(2) by (simp add: in_step_def)
  then show ?thesis using assms(1) by (simp add: elapse_None)
next
  case True
  then have c: "socket s \<noteq> CONNECTING" using assms(1) by (auto simp: linked_def)
  obtain c cs where w: "wire s = c # cs" using assms(1) by (cases "wire s") (simp_all add: linked_def)
  from elapse_grows [OF w, of d] obtain w1 q1 where
    "wire (elapse d s) = (c @ w1) # cs" "messageQueue (elapse d s) = messageQueue s @ q1"
    "Subscription \<notin> fst ` set q1" by blast
  then show ?thesis using assms(1) c elapse_frame [of d s] by (auto simp: linked_def)
qed

lemma send_linked:
  assumes "linked s"
  shows "linked (send r m s)"
proof (cases "r = OPEN")
  case False
  then show ?thesis using assms by (simp add: send_def)
next
  case True
  then show ?thesis using assms
    by (cases "wire s") (auto simp: linked_def send_def sendMessage_def transmit_def)
qed

lemma notice_linked:
  assumes "linked s" "in_step s" "enabled n s" "deliver [n] s = Inr s'"
  shows "linked s'"
proof (cases n)
  case SocketOpened
  then have "s' = render OPEN (onOpen (socket_state OPEN s))" "socket s = CONNECTING"
    using assms(3,4) by (simp_all add: deliver_SocketOpened)
  then show ?thesis using opened_linked [OF assms(1)] by simp
next
  case SocketClosing
  then have "s' = socket_state CLOSING s" "socket s = OPEN"
    using assms(3,4) by (simp_all add: deliver_SocketClosing)
  then show ?thesis using closing_linked [OF assms(1)] by simp
next
  case SocketClosed
  then have "s' = render CLOSED (onClose (socket_state CLOSED s))" "socket s \<noteq> CLOSED"
    using assms(3,4) by (auto simp: deliver_SocketClosed)
  then show ?thesis using closed_linked [OF assms(1), of "onClose (socket_state CLOSED s)"] by simp
next
  case SocketFailed
  then have "s' = render CLOSED (onClose (onError (socket_state CLOSED s)))" "socket s \<noteq> CLOSED"
    using assms(3,4) by (auto simp: deliver_SocketFailed)
  then show ?thesis
    using closed_linked [OF assms(1), of "onClose (onError (socket_state CLOSED s))"] by simp
next
  case Reconnecting
  then have "s' = render CONNECTING (socket_state CONNECTING s)" "socket s = CLOSED"
    using assms(3,4) by (simp_all add: deliver_Reconnecting)
  then show ?thesis using reconnecting_linked [OF assms(1)] by simp
next
  case GaveUp
  then have "s' = s" using assms(4) by (simp add: deliver_GaveUp)
  then show ?thesis using assms(1) by simp
next
  case (Frame v)
  then have "onJsonMessage v s = Inr s'" using assms(4) by (simp add: deliver_Frame)
  then show ?thesis using assms(1) by (rule frame_linked [rotated])
next
  case Rerendered
  then have "s' = s" using assms(4) by (simp add: deliver_Rerendered)
  then show ?thesis using assms(1) by simp
next
  case (Passed d)
  then have "s' = elapse d s" using assms(4) by (simp add: deliver_Passed)
  then show ?thesis using elapse_linked [OF assms(1,2)] by simp
next
  case (Called r m)
  then have "s' = send r m s" using assms(4) by (simp add: deliver_Called)
  then show ?thesis using send_linked [OF assms(1)] by simp
qed

lemma deliver_linked:
  "linked s \<Longrightarrow> in_step s \<Longrightarrow> feasible ns s \<Longrightarrow> deliver ns s = Inr s' \<Longrightarrow> linked s'"
proof (induction ns arbitrary: s)
  case Nil
  then show ?case by (simp add: deliver_Nil)
next
  case (Cons n ns)
  obtain s1 where s1: "deliver [n] s = Inr s1" using deliver_total by blast
  have e: "enabled n s" "feasible ns s1" using Cons.prems(3) s1 by simp_all
  have "linked s1" using notice_linked [OF Cons.prems(1,2) e(1) s1] .
  moreover have "in_step s1" using notice_in_step [OF Cons.prems(2) s1] .
  moreover have "deliver ns s1 = Inr s'" using Cons.prems(4) deliver_Cons [OF s1] by simp
  ultimately show ?case using Cons.IH e(2) by blast
qed

lemma reach_linked:
  "feasible ns (mount CONNECTING) \<Longrightarrow> deliver ns (mount CONNECTING) = Inr s \<Longrightarrow> linked s"
  using deliver_linked [OF mount_linked mount_in_step] .

subsection \<open>Events other than frames keep the collections\<close>

lemma render_keeps_collections:
  "timeline (render r s) = timeline s \<and> pendingTickets (render r s) = pendingTickets s
   \<and> lastMessage (render r s) = lastMessage s"
proof (cases "r = readyState s")
  case True
  then show ?thesis by (simp add: render_def)
next
  case False
  then show ?thesis using render_hook [OF False] by simp
qed

lemma step_keeps_collections:
  assumes "\<not> is_frame_event e"
  shows "\<exists>s'. step e s = Inr s' \<and> timeline s' = timeline s
           \<and> pendingTickets s' = pendingTickets s \<and> lastMessage s' = lastMessage s"
proof (cases e)
  case (ReadyStateChange r)
  then show ?thesis using render_keeps_collections [of r s] by simp
next
  case Rerender
  then show ?thesis by (simp add: render_same)
next
  case (Elapse d)
  then show ?thesis using elapse_frame [of d s] by simp
next
  case (Send r m)
  then show ?thesis using send_hook [of r m s] by simp
qed (use assms in \<open>simp_all add: onOpen_def onClose_def onError_def socket_state_def\<close>)

subsection \<open>Single frames\<close>

lemma timeline_update_step:
  assumes "field f ''type'' = JStr ''timeline_update''" and "is_array (field f ''timeline'')"
  shows "onJsonMessage f s = Inr (s\<lparr>lastMessage := f, timeline := field f ''timeline''\<rparr>)"
proof -
  have t: "truthy f" using assms(1) by (rule field_str_truthy)
  obtain xs where xs: "field f ''timeline'' = JArr xs"
    using assms(2) by (cases "field f ''timeline''") simp_all
  show ?thesis using assms(1) xs by (simp add: onJsonMessage_truthy [OF t] dispatch_def)
qed

lemma pending_update_step:
  assumes "field f ''type'' = JStr ''pending_tickets_update''"
  shows "onJsonMessage f s =
     Inr (if truthy (field f ''pending_tickets'')
          then s\<lparr>lastMessage := f, pendingTickets := field f ''pending_tickets''\<rparr>
          else s\<lparr>lastMessage := f\<rparr>)"
proof -
  have t: "truthy f" using assms by (rule field_str_truthy)
  show ?thesis using assms by (simp add: onJsonMessage_truthy [OF t] dispatch_def)
qed

lemma absent_falsy: "absent v \<Longrightarrow> \<not> truthy v"
  by (auto simp: absent_def)

lemma onJsonMessage_timeline_kept:
  "\<not> truthy (field f ''timeline'') \<Longrightarrow> onJsonMessage f s = Inr s' \<Longrightarrow> timeline s' = timeline s"
  by (cases "truthy f")
     (auto simp: onJsonMessage_truthy onJsonMessage_falsy dispatch_def Let_def get_prop_truthy
           split: if_splits)

lemma onJsonMessage_pending_kept:
  "\<not> truthy (field f ''pending_tickets'') \<Longrightarrow> onJsonMessage f s = Inr s'
     \<Longrightarrow> pendingTickets s' = pendingTickets s"
  by (cases "truthy f")
     (auto simp: onJsonMessage_truthy onJsonMessage_falsy dispatch_def Let_def get_prop_truthy
           split: if_splits)

section \<open>The claims\<close>

subsection \<open>C1: timeline updates replace the timeline\<close>

text \<open>
  C1. Let a non-empty sequence of frames be processed, each of type
  \<^verbatim>\<open>timeline_update\<close> and carrying an array as its \<^verbatim>\<open>timeline\<close>. From any state,
  no frame throws and the timeline afterwards is the payload of the last frame: the
  order of arrival alone decides the result.
\<close>

theorem timeline_update_full_replace:
  assumes "fs \<noteq> []"
    and "\<forall>f\<in>set fs. field f ''type'' = JStr ''timeline_update'' \<and> is_array (field f ''timeline'')"
  shows "\<exists>s'. run (map JsonMessage fs) s = Inr s' \<and> timeline s' = field (last fs) ''timeline''"
  using assms
proof (induction fs arbitrary: s)
  case Nil
  then show ?case by simp
next
  case (Cons f fs)
  have f: "field f ''type'' = JStr ''timeline_update''" "is_array (field f ''timeline'')"
    using Cons.prems(2) by simp_all
  let ?s1 = "s\<lparr>lastMessage := f, timeline := field f ''timeline''\<rparr>"
  have st: "onJsonMessage f s = Inr ?s1" using f by (rule timeline_update_step)
  show ?case
  proof (cases "fs = []")
    case True
    then show ?thesis using st by simp
  next
    case False
    have "\<forall>g\<in>set fs. field g ''type'' = JStr ''timeline_update'' \<and> is_array (field g ''timeline'')"
      using Cons.prems(2) by simp
    from Cons.IH [OF False this, of ?s1] obtain s' where
      "run (map JsonMessage fs) ?s1 = Inr s'" "timeline s' = field (last fs) ''timeline''"
      by blast
    then show ?thesis using st False by simp
  qed
qed

theorem timeline_update_full_replace_witness:
  "[frame_a, frame_b] \<noteq> []
   \<and> field frame_a ''type'' = JStr ''timeline_update'' \<and> is_array (field frame_a ''timeline'')
   \<and> field frame_b ''type'' = JStr ''timeline_update'' \<and> is_array (field frame_b ''timeline'')
   \<and> (\<exists>s'. run (map JsonMessage [frame_a, frame_b]) (mount CONNECTING) = Inr s'
        \<and> timeline s' = JArr [])"
proof -
  have h1: "[frame_a, frame_b] \<noteq> []" by simp
  have h2: "\<forall>f\<in>set [frame_a, frame_b].
        field f ''type'' = JStr ''timeline_update'' \<and> is_array (field f ''timeline'')"
    by (simp add: frame_a_def frame_b_def field_def)
  have "field (last [frame_a, frame_b]) ''timeline'' = JArr []"
    by (simp add: frame_b_def field_def)
  with timeline_update_full_replace [OF h1 h2, of "mount CONNECTING"] h1 h2
  show ?thesis by simp
qed

subsection \<open>C2: the heartbeat\<close>



subsection \<open>C3: the subscription\<close>

text \<open>
  C3, with the queue of the package taken into account. Let the notices have come as
  they can, and let \<open>s\<close> be the state reached, with a socket that is connecting (the first
  one or a later one). Nothing has been sent on that socket, the status is not
  \<^verbatim>\<open>'Connected'\<close>, and no subscription waits in the queue. When the socket opens, the
  status becomes \<^verbatim>\<open>'Connected'\<close>, the hook makes exactly one call, the subscription, and
  the socket has been given the queued messages followed by the subscription. For as
  long as the hook stays connected, everything else given to that socket comes after the
  subscription and is no subscription: the subscription is sent exactly once on each
  connection, after what the package had kept from before and before all the rest.
\<close>

theorem subscription_after_queue:
  assumes "feasible ns0 (mount CONNECTING)" and "deliver ns0 (mount CONNECTING) = Inr s"
    and "enabled SocketOpened s" and "\<forall>n\<in>set post. keeps_connection n"
  shows "\<exists>s1 s2 older rest.
           wire s = [] # older \<and> connectionStatus s \<noteq> ''Connected''
         \<and> Subscription \<notin> fst ` set (messageQueue s)
         \<and> deliver [SocketOpened] s = Inr s1 \<and> connectionStatus s1 = ''Connected''
         \<and> outbox s1 = outbox s @ [(Subscription, subscribe_frame)]
         \<and> wire s1 = (messageQueue s @ [(Subscription, subscribe_frame)]) # older
         \<and> messageQueue s1 = []
         \<and> deliver post s1 = Inr s2
         \<and> wire s2 = (messageQueue s @ (Subscription, subscribe_frame) # rest) # older
         \<and> Subscription \<notin> fst ` set rest"
proof -
  have i: "in_step s" using assms(2) by (rule reach_in_step)
  have l: "linked s" using assms(1,2) by (rule reach_linked)
  have c: "socket s = CONNECTING" using assms(3) by simp
  have n: "readyState s = CONNECTING" using l c by (simp add: linked_def)
  obtain older where w: "wire s = [] # older"
    using l c by (cases "wire s") (simp_all add: linked_def)
  have st: "connectionStatus s \<noteq> ''Connected''" using in_step_status [OF i] n by simp
  have q: "Subscription \<notin> fst ` set (messageQueue s)" using l by (simp add: linked_def)
  let ?t = "onOpen (socket_state OPEN s)"
  let ?s1 = "render OPEN ?t"
  have t: "readyState ?t \<noteq> OPEN" "socket ?t = OPEN" "wire ?t = [] # older"
    "messageQueue ?t = messageQueue s" "outbox ?t = outbox s"
    using n w by (simp_all add: onOpen_def socket_state_def)
  have "OPEN \<noteq> readyState ?t" using t(1) by simp
  from render_hook [OF this] have
    h: "connectionStatus ?s1 = ''Connected''"
       "outbox ?s1 = outbox s @ [(Subscription, subscribe_frame)]"
    using t(5) by simp_all
  from render_OPEN_wire [OF t(1-3)] have
    w1: "wire ?s1 = (messageQueue s @ [(Subscription, subscribe_frame)]) # older"
        "messageQueue ?s1 = []"
    using t(4) by simp_all
  from stretch_grows [OF w1(1) assms(4)] obtain s2 rest where
    s2: "deliver post ?s1 = Inr s2"
        "wire s2 = ((messageQueue s @ [(Subscription, subscribe_frame)]) @ rest) # older"
        "Subscription \<notin> fst ` set rest" by blast
  have "wire s2 = (messageQueue s @ (Subscription, subscribe_frame) # rest) # older"
    using s2(2) by simp
  then show ?thesis
    using w st q h w1 s2(1,3) deliver_SocketOpened [of s] by blast
qed

theorem subscription_after_queue_witness:
  "feasible [SocketOpened, Called OPEN (JStr ''one''), SocketFailed,
             Called OPEN (JStr ''two''), Reconnecting] (mount CONNECTING)
   \<and> deliver [SocketOpened, Called OPEN (JStr ''one''), SocketFailed,
               Called OPEN (JStr ''two''), Reconnecting] (mount CONNECTING)
       = Inr ((mount CONNECTING)\<lparr>rendered := {CONNECTING, OPEN, CLOSED},
                outbox := [(Subscription, subscribe_frame), (Consumer, JStr ''one''),
                           (Consumer, JStr ''two'')],
                messageQueue := [(Consumer, JStr ''two'')],
                wire := [[], [(Subscription, subscribe_frame), (Consumer, JStr ''one'')]]\<rparr>)
   \<and> enabled SocketOpened
        ((mount CONNECTING)\<lparr>rendered := {CONNECTING, OPEN, CLOSED},
                outbox := [(Subscription, subscribe_frame), (Consumer, JStr ''one''),
                           (Consumer, JStr ''two'')],
                messageQueue := [(Consumer, JStr ''two'')],
                wire := [[], [(Subscription, subscribe_frame), (Consumer, JStr ''one'')]]\<rparr>)
   \<and> keeps_connection Rerendered \<and> keeps_connection (Called OPEN (JStr ''three''))
   \<and> keeps_connection (Passed 30000)
   \<and> (\<exists>s1 s2.
         deliver [SocketOpened]
           ((mount CONNECTING)\<lparr>rendered := {CONNECTING, OPEN, CLOSED},
                outbox := [(Subscription, subscribe_frame), (Consumer, JStr ''one''),
                           (Consumer, JStr ''two'')],
                messageQueue := [(Consumer, JStr ''two'')],
                wire := [[], [(Subscription, subscribe_frame), (Consumer, JStr ''one'')]]\<rparr>)
           = Inr s1
       \<and> connectionStatus s1 = ''Connected''
       \<and> wire s1 = [[(Consumer, JStr ''two''), (Subscription, subscribe_frame)],
                     [(Subscription, subscribe_frame), (Consumer, JStr ''one'')]]
       \<and> deliver [Rerendered, Called OPEN (JStr ''three''), Passed 30000] s1 = Inr s2
       \<and> wire s2 = [[(Consumer, JStr ''two''), (Subscription, subscribe_frame),
                      (Consumer, JStr ''three''), (Heartbeat, ping_frame)],
                     [(Subscription, subscribe_frame), (Consumer, JStr ''one'')]])"
proof -
  let ?ns0 = "[SocketOpened, Called OPEN (JStr ''one''), SocketFailed,
               Called OPEN (JStr ''two''), Reconnecting]"
  let ?s = "(mount CONNECTING)\<lparr>rendered := {CONNECTING, OPEN, CLOSED},
                outbox := [(Subscription, subscribe_frame), (Consumer, JStr ''one''),
                           (Consumer, JStr ''two'')],
                messageQueue := [(Consumer, JStr ''two'')],
                wire := [[], [(Subscription, subscribe_frame), (Consumer, JStr ''one'')]]\<rparr>"
  let ?post = "[Rerendered, Called OPEN (JStr ''three''), Passed 30000]"
  have h1: "feasible ?ns0 (mount CONNECTING)"
    by (simp add: deliver_def effect_defs)
  have h2: "deliver ?ns0 (mount CONNECTING) = Inr ?s"
    by (simp add: deliver_def effect_defs insert_commute)
  have h3: "enabled SocketOpened ?s" by (simp add: effect_defs)
  have h4: "\<forall>n\<in>set ?post. keeps_connection n" by simp
  from subscription_after_queue [OF h1 h2 h3 h4] obtain s1 s2 where
    a: "deliver [SocketOpened] ?s = Inr s1" "connectionStatus s1 = ''Connected''"
       "deliver ?post s1 = Inr s2" by blast
  have s1: "wire s1 = [[(Consumer, JStr ''two''), (Subscription, subscribe_frame)],
                     [(Subscription, subscribe_frame), (Consumer, JStr ''one'')]]"
    "socket s1 = OPEN" "readyState s1 = OPEN" "pingInterval s1 = Some 30000"
    using a(1) by (auto simp: deliver_def effect_defs)
  have "s2 = elapse 30000 (send OPEN (JStr ''three'') s1)"
    using a(3) by (simp add: deliver_def render_same)
  then have "wire s2 = [[(Consumer, JStr ''two''), (Subscription, subscribe_frame),
                      (Consumer, JStr ''three''), (Heartbeat, ping_frame)],
                     [(Subscription, subscribe_frame), (Consumer, JStr ''one'')]]"
    using s1 by (simp add: elapse.simps effect_defs)
  then show ?thesis using h1 h2 h3 a s1(1) by simp
qed

text \<open>
  C3 does not hold as it stands. The socket opens, then starts closing; the hook is not
  told, its timer is still live and 30000 ms later the ping, which the closing socket
  cannot send, is kept by the package. The socket closes, the package connects again,
  and on the new connection the ping goes out before the subscription.
\<close>

theorem ping_before_subscription:
  "feasible [SocketOpened, SocketClosing, Passed 30000, SocketClosed, Reconnecting,
             SocketOpened] (mount CONNECTING)
   \<and> map_sum id messageQueue
       (deliver [SocketOpened, SocketClosing, Passed 30000, SocketClosed, Reconnecting]
          (mount CONNECTING))
     = Inr [(Heartbeat, ping_frame)]
   \<and> map_sum id wire
       (deliver [SocketOpened, SocketClosing, Passed 30000, SocketClosed, Reconnecting,
                 SocketOpened] (mount CONNECTING))
     = Inr [[(Heartbeat, ping_frame), (Subscription, subscribe_frame)],
            [(Subscription, subscribe_frame)]]"
  by (simp add: deliver_def effect_defs elapse.simps)

subsection \<open>C5: unknown type tags\<close>

text \<open>
  C5. A frame whose type tag is none of the six case labels (or that has no type tag)
  does not throw and changes nothing but the last-message cell: timeline, pending
  tickets, status, ready state, timer and outbox stay as they were, so nothing is sent
  and the connection is not closed. (A falsy frame does not even reach the switch.)
\<close>

theorem unknown_type_is_noop:
  assumes "field f ''type'' \<notin> set recognized_tags"
  shows "step (JsonMessage f) s = Inr (if truthy f then s\<lparr>lastMessage := f\<rparr> else s)"
  using assms
  by (cases "truthy f")
     (simp_all add: onJsonMessage_truthy onJsonMessage_falsy dispatch_def recognized_tags_def)

theorem unknown_type_is_noop_witness:
  "field frame_unknown ''type'' \<notin> set recognized_tags
   \<and> step (JsonMessage frame_unknown) state_with_data
       = Inr (state_with_data\<lparr>lastMessage := frame_unknown\<rparr>)"
proof -
  have h: "field frame_unknown ''type'' \<notin> set recognized_tags"
    by (simp add: frame_unknown_def field_def recognized_tags_def)
  have "truthy frame_unknown" by (simp add: frame_unknown_def)
  with unknown_type_is_noop [OF h, of state_with_data] h show ?thesis by simp
qed

subsection \<open>C6: the consumer's send\<close>

text \<open>
  C6, for the send of the latest render. Let \<open>s\<close> be a state of the hook between two
  notices of the package in which the status is not \<^verbatim>\<open>'Connected'\<close>. The latest render
  has not seen OPEN, and calling the \<^verbatim>\<open>sendMessage\<close> it returned, with any message, does
  not throw and leaves the whole state as it was: nothing is sent and nothing is kept.
  The same holds, in any state, of the \<^verbatim>\<open>sendMessage\<close> returned by any render that has not
  seen OPEN.
\<close>

theorem send_of_latest_render:
  assumes "deliver ns0 (mount r0) = Inr s" and "connectionStatus s \<noteq> ''Connected''"
    and "r \<noteq> OPEN"
  shows "readyState s \<in> rendered s \<and> readyState s \<noteq> OPEN
       \<and> deliver [Called (readyState s) m] s = Inr s
       \<and> deliver [Called r m] t = Inr t"
proof -
  have i: "in_step s" using assms(1) by (rule reach_in_step)
  have n: "readyState s \<noteq> OPEN" using in_step_status [OF i] assms(2) by simp
  show ?thesis using i n assms(3) by (simp add: in_step_def deliver_Called send_def)
qed

theorem send_of_latest_render_witness:
  "deliver [SocketOpened, SocketClosed] (mount CONNECTING)
     = Inr ((mount CONNECTING)\<lparr>readyState := CLOSED, connectionStatus := ''Disconnected'',
              rendered := {CONNECTING, OPEN, CLOSED}, socket := CLOSED,
              outbox := [(Subscription, subscribe_frame)],
              wire := [[(Subscription, subscribe_frame)]]\<rparr>)
   \<and> connectionStatus
        ((mount CONNECTING)\<lparr>readyState := CLOSED, connectionStatus := ''Disconnected'',
              rendered := {CONNECTING, OPEN, CLOSED}, socket := CLOSED,
              outbox := [(Subscription, subscribe_frame)],
              wire := [[(Subscription, subscribe_frame)]]\<rparr>) \<noteq> ''Connected''
   \<and> CONNECTING \<noteq> OPEN
   \<and> deliver [Called CLOSED (JStr ''hello'')]
        ((mount CONNECTING)\<lparr>readyState := CLOSED, connectionStatus := ''Disconnected'',
              rendered := {CONNECTING, OPEN, CLOSED}, socket := CLOSED,
              outbox := [(Subscription, subscribe_frame)],
              wire := [[(Subscription, subscribe_frame)]]\<rparr>)
       = Inr ((mount CONNECTING)\<lparr>readyState := CLOSED, connectionStatus := ''Disconnected'',
              rendered := {CONNECTING, OPEN, CLOSED}, socket := CLOSED,
              outbox := [(Subscription, subscribe_frame)],
              wire := [[(Subscription, subscribe_frame)]]\<rparr>)
   \<and> deliver [Called CONNECTING (JStr ''hello'')] state_with_data = Inr state_with_data"
proof -
  let ?s = "(mount CONNECTING)\<lparr>readyState := CLOSED, connectionStatus := ''Disconnected'',
              rendered := {CONNECTING, OPEN, CLOSED}, socket := CLOSED,
              outbox := [(Subscription, subscribe_frame)],
              wire := [[(Subscription, subscribe_frame)]]\<rparr>"
  have h1: "deliver [SocketOpened, SocketClosed] (mount CONNECTING) = Inr ?s"
    by (simp add: deliver_def effect_defs insert_commute)
  have h2: "connectionStatus ?s \<noteq> ''Connected''" by simp
  have h3: "CONNECTING \<noteq> OPEN" by simp
  have r: "readyState ?s = CLOSED" by simp
  from send_of_latest_render [OF h1 h2 h3, of "JStr ''hello''" state_with_data]
  show ?thesis using h1 h2 unfolding r by simp
qed

text \<open>
  C6 does not hold as it stands. A consumer may keep the \<^verbatim>\<open>sendMessage\<close> of a render that
  saw OPEN. After the socket has closed the status is \<^verbatim>\<open>'Disconnected'\<close>, but that function
  still tests the OPEN of its own render: the message reaches the package, which keeps
  it, and it is sent on the next connection.
\<close>

theorem send_kept_from_open_render:
  "feasible [SocketOpened, SocketClosed, Called OPEN (JStr ''hello''), Reconnecting,
             SocketOpened] (mount CONNECTING)
   \<and> map_sum id connectionStatus
       (deliver [SocketOpened, SocketClosed] (mount CONNECTING)) = Inr ''Disconnected''
   \<and> map_sum id messageQueue
       (deliver [SocketOpened, SocketClosed] (mount CONNECTING)) = Inr []
   \<and> map_sum id connectionStatus
       (deliver [SocketOpened, SocketClosed, Called OPEN (JStr ''hello'')] (mount CONNECTING))
     = Inr ''Disconnected''
   \<and> map_sum id messageQueue
       (deliver [SocketOpened, SocketClosed, Called OPEN (JStr ''hello'')] (mount CONNECTING))
     = Inr [(Consumer, JStr ''hello'')]
   \<and> map_sum id wire
       (deliver [SocketOpened, SocketClosed, Called OPEN (JStr ''hello''), Reconnecting,
                 SocketOpened] (mount CONNECTING))
     = Inr [[(Consumer, JStr ''hello''), (Subscription, subscribe_frame)],
            [(Subscription, subscribe_frame)]]"
  by (simp add: deliver_def effect_defs)

subsection \<open>C7: pending-ticket updates are idempotent\<close>

text \<open>
  C7. Delivering a \<^verbatim>\<open>pending_tickets_update\<close> frame a second time changes nothing: the
  state after two deliveries in a row is the state after one, the pending tickets
  included.
\<close>

theorem pending_update_idempotent:
  assumes "field f ''type'' = JStr ''pending_tickets_update''"
  shows "\<exists>s1. run [JsonMessage f] s = Inr s1 \<and> run [JsonMessage f, JsonMessage f] s = Inr s1"
  using assms by (simp add: pending_update_step)

theorem pending_update_idempotent_witness:
  "field frame_pending ''type'' = JStr ''pending_tickets_update''
   \<and> (\<exists>s1. run [JsonMessage frame_pending] (mount OPEN) = Inr s1
         \<and> run [JsonMessage frame_pending, JsonMessage frame_pending] (mount OPEN) = Inr s1
         \<and> pendingTickets s1 = JArr [JObj [(''id'', JNum 7), (''title'', JStr ''P'')]])"
proof -
  have h: "field frame_pending ''type'' = JStr ''pending_tickets_update''"
    by (simp add: frame_pending_def field_def)
  have p: "field frame_pending ''pending_tickets''
             = JArr [JObj [(''id'', JNum 7), (''title'', JStr ''P'')]]"
    by (simp add: frame_pending_def field_def)
  from pending_update_idempotent [OF h, of "mount OPEN"] obtain s1 where
    s1: "run [JsonMessage frame_pending] (mount OPEN) = Inr s1"
        "run [JsonMessage frame_pending, JsonMessage frame_pending] (mount OPEN) = Inr s1"
    by blast
  from s1(1) have "pendingTickets s1 = JArr [JObj [(''id'', JNum 7), (''title'', JStr ''P'')]]"
    using p by (auto simp: pending_update_step [OF h])
  with s1 h show ?thesis by blast
qed

subsection \<open>C8: the link going down keeps the collections\<close>

text \<open>
  C8. The close callback and the error callback change the status string and nothing
  else; the package giving up on reconnecting changes nothing at all. More generally, no
  sequence of events without an inbound frame (callbacks, changes of the ready state,
  time passing, sends of the consumer) throws or changes the timeline, the pending
  tickets or the last message: what the consumer reads stays the last data received.
\<close>

theorem link_events_keep_collections:
  assumes "\<forall>e\<in>set es. \<not> is_frame_event e"
  shows "step Closed s = Inr (s\<lparr>connectionStatus := ''Disconnected''\<rparr>)
       \<and> step Errored s = Inr (s\<lparr>connectionStatus := ''Error''\<rparr>)
       \<and> step ReconnectStopped s = Inr s
       \<and> (\<exists>s'. run es s = Inr s' \<and> timeline s' = timeline s
              \<and> pendingTickets s' = pendingTickets s \<and> lastMessage s' = lastMessage s)"
proof -
  have "\<exists>s'. run es s = Inr s' \<and> timeline s' = timeline s
              \<and> pendingTickets s' = pendingTickets s \<and> lastMessage s' = lastMessage s"
    using assms
  proof (induction es arbitrary: s)
    case Nil
    then show ?case by simp
  next
    case (Cons e es)
    have "\<not> is_frame_event e" using Cons.prems by simp
    from step_keeps_collections [OF this, of s] obtain s1 where
      s1: "step e s = Inr s1" "timeline s1 = timeline s" "pendingTickets s1 = pendingTickets s"
          "lastMessage s1 = lastMessage s" by blast
    have "\<forall>e\<in>set es. \<not> is_frame_event e" using Cons.prems by simp
    from Cons.IH [OF this, of s1] s1 show ?case by auto
  qed
  then show ?thesis by (simp add: onClose_def onError_def)
qed

theorem link_events_keep_collections_witness:
  "\<not> is_frame_event Errored \<and> \<not> is_frame_event Closed
   \<and> \<not> is_frame_event (ReadyStateChange CLOSED) \<and> \<not> is_frame_event (Elapse 3000)
   \<and> \<not> is_frame_event (ReadyStateChange CONNECTING) \<and> \<not> is_frame_event ReconnectStopped
   \<and> (\<exists>s'. run [Errored, Closed, ReadyStateChange CLOSED, Elapse 3000,
                 ReadyStateChange CONNECTING, Errored, Closed, ReadyStateChange CLOSED,
                 ReconnectStopped] state_with_data = Inr s'
          \<and> timeline s' = JArr [JObj [(''ticket_id'', JNum 1), (''status'', JStr ''pending'')]]
          \<and> pendingTickets s' = JArr [JObj [(''id'', JNum 7), (''title'', JStr ''P'')]]
          \<and> connectionStatus s' = ''Disconnected'')"
proof -
  let ?es = "[Errored, Closed, ReadyStateChange CLOSED, Elapse 3000,
                 ReadyStateChange CONNECTING, Errored, Closed, ReadyStateChange CLOSED,
                 ReconnectStopped]"
  let ?t = "state_with_data\<lparr>readyState := CLOSED, pingInterval := None,
          connectionStatus := ''Disconnected'', rendered := {CONNECTING, OPEN, CLOSED}\<rparr>"
  have h: "\<forall>e\<in>set ?es. \<not> is_frame_event e" by simp
  have e: "run ?es state_with_data = Inr ?t"
    by (simp add: effect_defs state_with_data_def elapse_None insert_commute)
  from link_events_keep_collections [OF h, of state_with_data]
  have "\<exists>s'. run ?es state_with_data = Inr s' \<and> timeline s' = timeline state_with_data
          \<and> pendingTickets s' = pendingTickets state_with_data" by blast
  then show ?thesis unfolding e by (simp add: state_with_data_def)
qed

subsection \<open>C9: a missing payload changes nothing\<close>

text \<open>
  C9. Whatever the type of a frame, it does not throw; when its \<^verbatim>\<open>timeline\<close> field is
  missing or \<^verbatim>\<open>null\<close> the timeline stays as it was, and when its \<^verbatim>\<open>pending_tickets\<close>
  field is missing or \<^verbatim>\<open>null\<close> the pending tickets stay as they were. This covers the
  \<^verbatim>\<open>timeline_update\<close>, \<^verbatim>\<open>pending_tickets_update\<close> and \<^verbatim>\<open>initial_data\<close> frames.
\<close>

theorem absent_field_keeps_collection:
  "\<exists>s'. step (JsonMessage f) s = Inr s'
     \<and> (absent (field f ''timeline'') \<longrightarrow> timeline s' = timeline s)
     \<and> (absent (field f ''pending_tickets'') \<longrightarrow> pendingTickets s' = pendingTickets s)"
proof -
  obtain s' where s': "onJsonMessage f s = Inr s'" using onJsonMessage_total by blast
  show ?thesis
    using s' onJsonMessage_timeline_kept [OF _ s'] onJsonMessage_pending_kept [OF _ s']
    by (auto dest: absent_falsy)
qed

theorem absent_field_keeps_collection_witness:
  "absent (field frame_hollow ''timeline'') \<and> absent (field frame_hollow ''pending_tickets'')
   \<and> (\<exists>s'. step (JsonMessage frame_hollow) state_with_data = Inr s'
         \<and> timeline s' = JArr [JObj [(''ticket_id'', JNum 1), (''status'', JStr ''pending'')]]
         \<and> pendingTickets s' = JArr [JObj [(''id'', JNum 7), (''title'', JStr ''P'')]])"
proof -
  have h1: "absent (field frame_hollow ''timeline'')"
    by (simp add: frame_hollow_def field_def absent_def)
  have h2: "absent (field frame_hollow ''pending_tickets'')"
    by (simp add: frame_hollow_def field_def absent_def)
  from absent_field_keeps_collection [of frame_hollow state_with_data] h1 h2
  show ?thesis by (auto simp: state_with_data_def)
qed

subsection \<open>C10: the initial values\<close>

text \<open>
  C10. What the first render returns, whatever ready state the package reports: an
  empty timeline, an empty list of pending tickets, the status \<^verbatim>\<open>'Connecting'\<close> and
  \<^verbatim>\<open>null\<close> as last message. They still hold after the effects of the first render when
  the package starts in CONNECTING, and nothing has been sent.
\<close>

theorem initial_values:
  "timeline (first_render r) = JArr [] \<and> pendingTickets (first_render r) = JArr []
   \<and> connectionStatus (first_render r) = ''Connecting'' \<and> lastMessage (first_render r) = JNull
   \<and> mount CONNECTING = first_render CONNECTING \<and> outbox (mount CONNECTING) = []"
  by (simp add: effect_defs)

end
